theory Spec2Isabelle
  imports Main
begin

section \<open>Python strings\<close>

text \<open>
  The bot works on Python \<open>str\<close> values. A text is modelled as a \<open>string\<close>, one
  \<open>char\<close> per code point, so \<open>length\<close> is Python's \<open>len\<close> on texts whose code points
  are below 256. The decimal rendering of a number, \<open>str.strip()\<close> and
  \<open>str.split("\n\n")\<close> are the library functions the bot calls.
\<close>

definition nl :: char where
  "nl = CHR 0x0A"

definition blank_line :: string where
  "blank_line = [nl, nl]"

definition isspace :: "char \<Rightarrow> bool" where
  \<comment> \<open>\<open>str.isspace\<close> on one character: tab, LF, VT, FF, CR, FS, GS, RS, US, space, NEL, NBSP.\<close>
  "isspace c = (of_char c \<in> set [9, 10, 11, 12, 13, 28, 29, 30, 31, 32, 133, 160 :: nat])"

definition strip :: "string \<Rightarrow> string" where
  \<comment> \<open>\<open>s.strip()\<close>: leading and trailing whitespace removed.\<close>
  "strip s = rev (dropWhile isspace (rev (dropWhile isspace s)))"

fun split_acc :: "string \<Rightarrow> string \<Rightarrow> string list" where
  "split_acc cur [] = [cur]"
| "split_acc cur [c] = [cur @ [c]]"
| "split_acc cur (c # d # cs) =
     (if c = nl \<and> d = nl then cur # split_acc [] cs
      else split_acc (cur @ [c]) (d # cs))"

definition split_blank :: "string \<Rightarrow> string list" where
  \<comment> \<open>\<open>text.split("\n\n")\<close>: cut at the non-overlapping occurrences of the separator,
      scanning from the left; the result is never empty.\<close>
  "split_blank text = split_acc [] text"

fun join_blank :: "string list \<Rightarrow> string" where
  \<comment> \<open>\<open>"\n\n".join(ps)\<close>\<close>
  "join_blank [] = []"
| "join_blank [p] = p"
| "join_blank (p # q # ps) = p @ blank_line @ join_blank (q # ps)"

definition digit_char :: "nat \<Rightarrow> char" where
  "digit_char d = char_of (48 + d)"

function str_nat :: "nat \<Rightarrow> string" where
  \<comment> \<open>\<open>str(n)\<close> of a non-negative integer: its decimal digits.\<close>
  "str_nat n = (if n < 10 then [digit_char n] else str_nat (n div 10) @ [digit_char (n mod 10)])"
  by pat_completeness auto
termination
  by (relation "measure id") auto

declare str_nat.simps [simp del]

function contains_str :: "string \<Rightarrow> string \<Rightarrow> bool" where
  \<comment> \<open>\<open>needle in haystack\<close> on strings.\<close>
  "contains_str needle haystack =
     (if take (length needle) haystack = needle then True
      else if haystack = [] then False
      else contains_str needle (tl haystack))"
  by pat_completeness auto
termination
  by (relation "measure (\<lambda>(needle, haystack). length haystack)") auto

declare contains_str.simps [simp del]

section \<open>The delivery splitter: \<open>TelegramBot._send_long_message\<close>\<close>

subsection \<open>Splitting into parts (bot.py, lines 123 to 145)\<close>

text \<open>
  The loop over the paragraphs carries \<open>parts\<close> and \<open>current_part\<close>. A paragraph that
  does not fit closes the running part, which is appended stripped when it is not empty,
  and starts the next one; a paragraph that fits is appended to the running part after a
  blank line, which is left out when the running part is empty.
\<close>

fun split_loop :: "int \<Rightarrow> string list \<Rightarrow> string list \<Rightarrow> string \<Rightarrow> string list \<times> string" where
  "split_loop max_length [] parts current_part = (parts, current_part)"
| "split_loop max_length (paragraph # paragraphs) parts current_part =
     (if int (length current_part) + int (length paragraph) + 2 > max_length
      then split_loop max_length paragraphs
             (if current_part \<noteq> [] then parts @ [strip current_part] else parts)
             paragraph
      else split_loop max_length paragraphs parts
             ((if current_part \<noteq> [] then current_part @ blank_line else current_part)
                @ paragraph))"

definition split_parts :: "string \<Rightarrow> int \<Rightarrow> string list" where
  "split_parts text max_length =
     (case split_loop max_length (split_blank text) [] [] of
        (parts, current_part) \<Rightarrow>
          if current_part \<noteq> [] then parts @ [strip current_part] else parts)"

definition paragraphs_fit :: "string \<Rightarrow> int \<Rightarrow> bool" where
  \<comment> \<open>Every blank-line-delimited paragraph of the text has length at most \<open>max_length\<close>.\<close>
  "paragraphs_fit text max_length =
     list_all (\<lambda>paragraph. int (length paragraph) \<le> max_length) (split_blank text)"

definition stripped :: "string \<Rightarrow> bool" where
  \<comment> \<open>No whitespace at either end.\<close>
  "stripped s = (s = [] \<or> (\<not> isspace (hd s) \<and> \<not> isspace (last s)))"

definition clean :: "string \<Rightarrow> bool" where
  \<comment> \<open>A paragraph that is not empty and has no whitespace at either end.\<close>
  "clean p = (p \<noteq> [] \<and> stripped p)"

definition paragraphs_clean :: "string \<Rightarrow> bool" where
  "paragraphs_clean text = list_all clean (split_blank text)"

definition no_blank :: "string \<Rightarrow> bool" where
  \<comment> \<open>The separator does not occur: splitting gives the string back, as one piece.\<close>
  "no_blank p = (split_acc [] p = [p])"

subsection \<open>The transport and the effects of a delivery\<close>

text \<open>
  \<open>self.app.bot.send_message\<close> either returns or raises. What the bot does with the outside
  world is recorded as a trace of effects: every send attempt with its result, every
  \<open>asyncio.sleep(0.5)\<close> and every \<open>print\<close>. The transport is a parameter: it decides the
  result of a send from the trace so far, the destination and the text, so any sequence of
  successes and failures can be played.
\<close>

datatype exn = BadRequest string | ValueError string | OtherException string

fun str_exn :: "exn \<Rightarrow> string" where
  \<comment> \<open>\<open>str(e)\<close>\<close>
  "str_exn (BadRequest m) = m"
| "str_exn (ValueError m) = m"
| "str_exn (OtherException m) = m"

fun is_too_long :: "exn \<Rightarrow> bool" where
  \<comment> \<open>\<open>isinstance(e, BadRequest) and "Message is too long" in str(e)\<close>\<close>
  "is_too_long (BadRequest m) = contains_str ''Message is too long'' m"
| "is_too_long (ValueError m) = False"
| "is_too_long (OtherException m) = False"

datatype effect = Send string string "exn option" | Sleep | Print string

type_synonym transport = "effect list \<Rightarrow> string \<Rightarrow> string \<Rightarrow> exn option"

definition send_message :: "transport \<Rightarrow> string \<Rightarrow> string \<Rightarrow> effect list \<Rightarrow> effect list \<times> exn option" where
  "send_message bot_api chat_id text trace =
     (trace @ [Send chat_id text (bot_api trace chat_id text)], bot_api trace chat_id text)"

fun sent_texts :: "effect list \<Rightarrow> string list" where
  \<comment> \<open>The texts handed to the transport, in order, whatever the result.\<close>
  "sent_texts [] = []"
| "sent_texts (Send chat_id text result # trace) = text # sent_texts trace"
| "sent_texts (Sleep # trace) = sent_texts trace"
| "sent_texts (Print line # trace) = sent_texts trace"

subsection \<open>Sending the parts (bot.py, lines 147 to 169)\<close>

definition header :: "nat \<Rightarrow> nat \<Rightarrow> string" where
  \<comment> \<open>\<open>f"Part {i}/{total_parts}:\n\n"\<close>\<close>
  "header i total_parts =
     ''Part '' @ str_nat i @ ''/'' @ str_nat total_parts @ '':'' @ blank_line"

definition part_message :: "nat \<Rightarrow> nat \<Rightarrow> string \<Rightarrow> string" where
  "part_message total_parts i part =
     (if total_parts > 1 then header i total_parts @ part else part)"

definition windows :: "nat \<Rightarrow> string \<Rightarrow> string list" where
  \<comment> \<open>\<open>[message[i:i + n] for i in range(0, len(message), n)]\<close> for a positive step \<open>n\<close>\<close>
  "windows n message =
     map (\<lambda>i. take n (drop i message))
       (map (\<lambda>k. k * n) [0 ..< (length message + n - 1) div n])"

definition subparts :: "int \<Rightarrow> string \<Rightarrow> exn + string list" where
  \<comment> \<open>Line 166. \<open>range\<close> raises ValueError on a zero step and is empty on a negative one.\<close>
  "subparts max_length message =
     (if max_length = 0 then Inl (ValueError ''range() arg 3 must not be zero'')
      else if max_length < 0 then Inr []
      else Inr (windows (nat max_length) message))"

fun send_subparts :: "transport \<Rightarrow> string \<Rightarrow> string list \<Rightarrow> effect list \<Rightarrow> effect list \<times> exn option" where
  \<comment> \<open>Lines 167 to 169: inside the handler, so a failing send is not caught.\<close>
  "send_subparts bot_api chat_id [] trace = (trace, None)"
| "send_subparts bot_api chat_id (subpart # rest) trace =
     (case bot_api trace chat_id subpart of
        Some e \<Rightarrow> (trace @ [Send chat_id subpart (Some e)], Some e)
      | None \<Rightarrow> send_subparts bot_api chat_id rest (trace @ [Send chat_id subpart None, Sleep]))"

fun send_parts :: "transport \<Rightarrow> string \<Rightarrow> int \<Rightarrow> nat \<Rightarrow> nat \<Rightarrow> string list \<Rightarrow> effect list \<Rightarrow> effect list \<times> exn option" where
  \<comment> \<open>The loop \<open>for i, part in enumerate(parts, 1)\<close>, from position \<open>i\<close> on.\<close>
  "send_parts bot_api chat_id max_length total_parts i [] trace = (trace, None)"
| "send_parts bot_api chat_id max_length total_parts i (part # rest) trace =
     (let message = part_message total_parts i part in
      case bot_api trace chat_id message of
        None \<Rightarrow>
          send_parts bot_api chat_id max_length total_parts (Suc i) rest
            (trace @ [Send chat_id message None] @ (if i < total_parts then [Sleep] else []))
      | Some e \<Rightarrow>
          let trace1 = trace @ [Send chat_id message (Some e),
                                  Print (''Error sending message part '' @ str_nat i @ '': '' @ str_exn e)]
          in if is_too_long e
             then (case subparts max_length message of
                     Inl err \<Rightarrow> (trace1, Some err)
                   | Inr ws \<Rightarrow>
                       (case send_subparts bot_api chat_id ws trace1 of
                          (trace2, Some err) \<Rightarrow> (trace2, Some err)
                        | (trace2, None) \<Rightarrow>
                            send_parts bot_api chat_id max_length total_parts (Suc i) rest trace2))
             else send_parts bot_api chat_id max_length total_parts (Suc i) rest trace1)"

definition send_long_message :: "transport \<Rightarrow> string \<Rightarrow> string \<Rightarrow> int \<Rightarrow> effect list \<Rightarrow> effect list \<times> exn option" where
  \<comment> \<open>\<open>_send_long_message(chat_id, text, max_length)\<close>: the trace after the call and the
      exception it raises, if any.\<close>
  "send_long_message bot_api chat_id text max_length trace =
     (if int (length text) \<le> max_length then send_message bot_api chat_id text trace
      else let parts = split_parts text max_length
           in send_parts bot_api chat_id max_length (length parts) 1 parts trace)"

subsection \<open>The body of a pass (bot.py, lines 98 to 102)\<close>

text \<open>
  \<open>message_handler.process_message_queue\<close> is not part of the sources at hand: what it
  returns, a reply, nothing, or an exception, is an input of the model.
\<close>

datatype reply = Returned "string option" | Raised exn

fun process_messages_try :: "transport \<Rightarrow> string \<Rightarrow> reply \<Rightarrow> effect list \<Rightarrow> effect list \<times> exn option" where
  "process_messages_try bot_api user_id (Raised e) trace = (trace, Some e)"
| "process_messages_try bot_api user_id (Returned None) trace = (trace, None)"
| "process_messages_try bot_api user_id (Returned (Some response)) trace =
     (if response \<noteq> [] then send_long_message bot_api user_id response 4000 trace
      else (trace, None))"

fun part_messages :: "nat \<Rightarrow> nat \<Rightarrow> string list \<Rightarrow> string list" where
  \<comment> \<open>The messages the loop builds for the parts at positions \<open>i\<close>, \<open>i + 1\<close>, ...\<close>
  "part_messages total_parts i [] = []"
| "part_messages total_parts i (part # rest) =
     part_message total_parts i part # part_messages total_parts (Suc i) rest"

text \<open>Transports used to run the model on concrete inputs.\<close>

definition accepting :: transport where
  \<comment> \<open>Every send succeeds.\<close>
  "accepting trace chat_id text = None"

definition limited :: "nat \<Rightarrow> transport" where
  \<comment> \<open>A transport with a hard limit: a longer text is refused as too long.\<close>
  "limited limit trace chat_id text =
     (if length text > limit then Some (BadRequest ''Message is too long'') else None)"


section \<open>The per-user scheduler: \<open>handle_message\<close> and \<open>_process_messages\<close>\<close>

subsection \<open>The message queue\<close>

text \<open>
  The queue lives in MongoDB, behind \<open>db\<close> and \<open>message_handler\<close>, whose sources are not at
  hand. A queued message carries its user, its text and the \<open>is_processed\<close> flag; the
  timestamp plays no part in scheduling and is left out.
\<close>

record queued_message =
  q_user_id :: string
  q_text :: string
  is_processed :: bool

definition add_message :: "string \<Rightarrow> string \<Rightarrow> queued_message list \<Rightarrow> queued_message list" where
  \<comment> \<open>Modelled from the spec: \<open>db.add_message\<close>, the Queue Store's enqueue, is missing; it
      persists one record per inbound message, not yet processed.\<close>
  "add_message user_id message_text queue =
     queue @ [\<lparr>q_user_id = user_id, q_text = message_text, is_processed = False\<rparr>]"

definition count_documents :: "string \<Rightarrow> queued_message list \<Rightarrow> nat" where
  \<comment> \<open>\<open>message_queue.count_documents({"user_id": user_id, "is_processed": False})\<close>\<close>
  "count_documents user_id queue =
     length (filter (\<lambda>m. q_user_id m = user_id \<and> \<not> is_processed m) queue)"

definition claim_messages :: "string \<Rightarrow> queued_message list \<Rightarrow> queued_message list" where
  \<comment> \<open>Modelled from the spec: the Batch Processor behind \<open>process_message_queue\<close> is missing;
      it claims all currently unprocessed messages of the user and marks them processed.\<close>
  "claim_messages user_id queue =
     map (\<lambda>m. if q_user_id m = user_id then m\<lparr>is_processed := True\<rparr> else m) queue"

subsection \<open>The state and its atomic steps\<close>

text \<open>
  The bot runs on one asyncio event loop: a coroutine is interleaved with others only at an
  \<open>await\<close>. Lines 85 to 94 of \<open>handle_message\<close>, lines 72 to 74 of \<open>handle_document\<close>
  and the \<open>finally\<close> block of \<open>_process_messages\<close> (lines 104 to 114) contain none, so each
  is one atomic step on the state: the set \<open>processing_users\<close>, the tasks created by
  \<open>asyncio.create_task(self._process_messages(user_id))\<close> that have not completed yet, each
  named by its user, and the queue.
\<close>

record bot_state =
  processing_users :: "string set"
  tasks :: "string list"
  message_queue :: "queued_message list"

definition initial :: "queued_message list \<Rightarrow> bot_state" where
  "initial queue = \<lparr>processing_users = {}, tasks = [], message_queue = queue\<rparr>"

definition handle_message :: "string \<Rightarrow> string \<Rightarrow> bot_state \<Rightarrow> bot_state" where
  "handle_message user_id message_text s =
     (let s1 = s\<lparr>message_queue := add_message user_id message_text (message_queue s)\<rparr>
      in if user_id \<notin> processing_users s1
         then s1\<lparr>processing_users := insert user_id (processing_users s1),
                 tasks := tasks s1 @ [user_id]\<rparr>
         else s1)"

definition handle_document_schedule :: "string \<Rightarrow> bot_state \<Rightarrow> bot_state" where
  \<comment> \<open>Lines 72 to 74: the scheduling at the end of a successful upload.\<close>
  "handle_document_schedule user_id s =
     (if user_id \<notin> processing_users s
      then s\<lparr>processing_users := insert user_id (processing_users s),
              tasks := tasks s @ [user_id]\<rparr>
      else s)"

definition process_messages_finally :: "string \<Rightarrow> bot_state \<Rightarrow> bot_state" where
  \<comment> \<open>Lines 104 to 114: \<open>discard\<close>, then the count of pending messages, then \<open>add\<close> and
      \<open>create_task\<close> when there are some.\<close>
  "process_messages_finally user_id s =
     (let s1 = s\<lparr>processing_users := processing_users s - {user_id}\<rparr>;
          pending_messages = count_documents user_id (message_queue s1)
      in if pending_messages > 0
         then s1\<lparr>processing_users := insert user_id (processing_users s1),
                 tasks := tasks s1 @ [user_id]\<rparr>
         else s1)"

definition complete_pass :: "string \<Rightarrow> bot_state \<Rightarrow> bot_state" where
  \<comment> \<open>A pass runs its \<open>finally\<close> block and ends, in one step: the task it may have
      created starts only once this one has returned, and its own task is then gone.\<close>
  "complete_pass user_id s =
     (let s1 = process_messages_finally user_id s
      in s1\<lparr>tasks := remove1 user_id (tasks s1)\<rparr>)"

text \<open>
  The events that change the state: an inbound text message; the scheduling after a
  document upload; the claim made by the batch processor inside an active pass; and the
  completion of an active pass, whose \<open>try\<close> body returned (\<open>None\<close>) or raised. A claim
  and a completion need an active pass of that user.
\<close>

datatype event =
    Message string string
  | Document string
  | Claim string
  | Complete string "exn option"

fun step :: "event \<Rightarrow> bot_state \<Rightarrow> bot_state option" where
  "step (Message user_id message_text) s = Some (handle_message user_id message_text s)"
| "step (Document user_id) s = Some (handle_document_schedule user_id s)"
| "step (Claim user_id) s =
     (if user_id \<in> set (tasks s)
      then Some (s\<lparr>message_queue := claim_messages user_id (message_queue s)\<rparr>)
      else None)"
| "step (Complete user_id outcome) s =
     (if user_id \<in> set (tasks s) then Some (complete_pass user_id s) else None)"

fun run :: "event list \<Rightarrow> bot_state \<Rightarrow> bot_state option" where
  "run [] s = Some s"
| "run (e # es) s = (case step e s of None \<Rightarrow> None | Some s' \<Rightarrow> run es s')"

definition single_flight :: "bot_state \<Rightarrow> bool" where
  \<comment> \<open>No user has two active passes, and the users with an active pass are exactly the
      members of \<open>processing_users\<close>.\<close>
  "single_flight s = (distinct (tasks s) \<and> set (tasks s) = processing_users s)"

definition backlog_covered :: "bot_state \<Rightarrow> bool" where
  \<comment> \<open>Every user with an unprocessed message has an active pass.\<close>
  "backlog_covered s =
     list_all (\<lambda>m. is_processed m \<or> q_user_id m \<in> set (tasks s)) (message_queue s)"

section \<open>Properties of the string functions\<close>

lemma length_strip_le: "length (strip s) \<le> length s"
proof -
  have "length (strip s) \<le> length (dropWhile isspace s)"
    unfolding strip_def using length_dropWhile_le [of isspace "rev (dropWhile isspace s)"]
    by simp
  also have "\<dots> \<le> length s"
    by (rule length_dropWhile_le)
  finally show ?thesis .
qed

lemma strip_stripped: "stripped (strip s)"
proof (cases "strip s = []")
  case True
  then show ?thesis by (simp add: stripped_def)
next
  case False
  define a where "a = dropWhile isspace s"
  define b where "b = dropWhile isspace (rev a)"
  have sb: "strip s = rev b"
    by (simp add: strip_def a_def b_def)
  with False have bne: "b \<noteq> []" by simp
  then have hb: "\<not> isspace (hd b)"
    unfolding b_def by (metis hd_dropWhile)
  have "rev a \<noteq> []" using bne unfolding b_def by auto
  then have ane: "a \<noteq> []" by simp
  then have ha: "\<not> isspace (hd a)"
    unfolding a_def by (metis hd_dropWhile)
  have "last b = last (rev a)"
    using bne unfolding b_def
    by (metis append_Nil2 last_appendR takeWhile_dropWhile_id)
  then have lb: "last b = hd a"
    using ane by (simp add: last_rev)
  have "hd (rev b) = last b" using bne by (simp add: hd_rev)
  moreover have "last (rev b) = hd b" using bne by (simp add: last_rev)
  ultimately show ?thesis
    using sb hb ha lb by (simp add: stripped_def)
qed

lemma stripped_strip_id: "stripped s \<Longrightarrow> strip s = s"
proof (cases "s = []")
  case True
  then show ?thesis by (simp add: strip_def)
next
  case False
  assume "stripped s"
  with False have h: "\<not> isspace (hd s)" and l: "\<not> isspace (last s)"
    by (simp_all add: stripped_def)
  from False h have "dropWhile isspace s = s"
    by (cases s) simp_all
  moreover from False l have "dropWhile isspace (rev s) = rev s"
    by (cases "rev s") (simp_all add: last_rev [symmetric] hd_rev)
  ultimately show ?thesis
    by (simp add: strip_def)
qed

section \<open>Properties of the split\<close>

lemma split_acc_not_Nil: "split_acc cur s \<noteq> []"
  by (induction cur s rule: split_acc.induct) auto

lemma split_loop_bound:
  assumes "\<forall>p \<in> set paragraphs. int (length p) \<le> max_length"
    and "\<forall>p \<in> set parts. int (length p) \<le> max_length"
    and "int (length current_part) \<le> max_length"
    and "split_loop max_length paragraphs parts current_part = (parts', current_part')"
  shows "(\<forall>p \<in> set parts'. int (length p) \<le> max_length) \<and> int (length current_part') \<le> max_length"
  using assms
proof (induction paragraphs arbitrary: parts current_part)
  case Nil
  then show ?case by simp
next
  case (Cons para paragraphs)
  have sl: "int (length (strip current_part)) \<le> max_length"
    using Cons.prems(3) length_strip_le [of current_part] by linarith
  show ?case
  proof (cases "int (length current_part) + int (length para) + 2 > max_length")
    case True
    with Cons.prems(4)
    have run: "split_loop max_length paragraphs
                 (if current_part \<noteq> [] then parts @ [strip current_part] else parts)
                 para = (parts', current_part')"
      by simp
    have "\<forall>p \<in> set (if current_part \<noteq> [] then parts @ [strip current_part] else parts).
            int (length p) \<le> max_length"
      using Cons.prems(2) sl by simp
    moreover have "int (length para) \<le> max_length"
      using Cons.prems(1) by simp
    moreover have "\<forall>p \<in> set paragraphs. int (length p) \<le> max_length"
      using Cons.prems(1) by simp
    ultimately show ?thesis
      using run by (intro Cons.IH)
  next
    case False
    with Cons.prems(4)
    have run: "split_loop max_length paragraphs parts
                 ((if current_part \<noteq> [] then current_part @ blank_line else current_part)
                    @ para) = (parts', current_part')"
      by simp
    have "int (length ((if current_part \<noteq> [] then current_part @ blank_line else current_part)
                         @ para)) \<le> max_length"
      using False by (simp add: blank_line_def)
    moreover have "\<forall>p \<in> set paragraphs. int (length p) \<le> max_length"
      using Cons.prems(1) by simp
    ultimately show ?thesis
      using Cons.prems(2) run by (intro Cons.IH)
  qed
qed

lemma split_loop_stripped:
  assumes "\<forall>p \<in> set parts. stripped p"
    and "split_loop max_length paragraphs parts current_part = (parts', current_part')"
  shows "\<forall>p \<in> set parts'. stripped p"
  using assms
proof (induction paragraphs arbitrary: parts current_part)
  case Nil
  then show ?case by simp
next
  case (Cons para paragraphs)
  have closed: "\<forall>p \<in> set (if current_part \<noteq> [] then parts @ [strip current_part] else parts).
                  stripped p"
    using Cons.prems(1) by (simp add: strip_stripped)
  show ?case
  proof (cases "int (length current_part) + int (length para) + 2 > max_length")
    case True
    with Cons.prems(2)
    have "split_loop max_length paragraphs
            (if current_part \<noteq> [] then parts @ [strip current_part] else parts)
            para = (parts', current_part')"
      by simp
    with closed show ?thesis
      by (rule Cons.IH)
  next
    case False
    with Cons.prems(2)
    have "split_loop max_length paragraphs parts
            ((if current_part \<noteq> [] then current_part @ blank_line else current_part)
               @ para) = (parts', current_part')"
      by simp
    with Cons.prems(1) show ?thesis
      by (rule Cons.IH)
  qed
qed

text \<open>
  C4. Part-size bound: when every blank-line-delimited paragraph of the text has length
  at most \<open>max_length\<close>, every part of the greedy paragraph split, before any part marker
  is put in front of it, has length at most \<open>max_length\<close>.
\<close>

theorem part_size_bound:
  assumes "paragraphs_fit text max_length"
  shows "\<forall>part \<in> set (split_parts text max_length). int (length part) \<le> max_length"
proof -
  obtain parts current_part
    where run: "split_loop max_length (split_blank text) [] [] = (parts, current_part)"
    by (cases "split_loop max_length (split_blank text) [] []")
  have fit: "\<forall>p \<in> set (split_blank text). int (length p) \<le> max_length"
    using assms by (simp add: paragraphs_fit_def list_all_iff)
  have "split_blank text \<noteq> []"
    unfolding split_blank_def by (rule split_acc_not_Nil)
  then obtain p where "p \<in> set (split_blank text)"
    by (cases "split_blank text") auto
  with fit have "0 \<le> max_length" by fastforce
  then have "int (length ([]::string)) \<le> max_length" by simp
  from split_loop_bound [OF fit _ this run]
  have b: "(\<forall>p \<in> set parts. int (length p) \<le> max_length) \<and> int (length current_part) \<le> max_length"
    by simp
  then have "int (length (strip current_part)) \<le> max_length"
    using length_strip_le [of current_part] by linarith
  with b show ?thesis
    by (auto simp: split_parts_def run)
qed

theorem part_size_bound_witness:
  "paragraphs_fit ''ab\<newline>\<newline>cd'' 3
   \<and> split_parts ''ab\<newline>\<newline>cd'' 3 = [''ab'', ''cd'']
   \<and> list_all (\<lambda>part. int (length part) \<le> 3) (split_parts ''ab\<newline>\<newline>cd'' 3)"
proof -
  have fit: "paragraphs_fit ''ab\<newline>\<newline>cd'' 3"
    by code_simp
  have parts: "split_parts ''ab\<newline>\<newline>cd'' 3 = [''ab'', ''cd'']"
    by code_simp
  from part_size_bound [OF fit] fit parts show ?thesis
    by (simp only: list_all_iff simp_thms)
qed

text \<open>
  C10. Parts are whitespace-stripped: whatever the text and \<open>max_length\<close>, every part
  the split emits has gone through \<open>strip()\<close>, so it has no whitespace at its start or at
  its end; whitespace that a paragraph carries at a part boundary is not in the output.
\<close>

theorem parts_stripped:
  "\<forall>part \<in> set (split_parts text max_length). stripped part \<and> strip part = part"
proof -
  obtain parts current_part
    where run: "split_loop max_length (split_blank text) [] [] = (parts, current_part)"
    by (cases "split_loop max_length (split_blank text) [] []")
  have "\<forall>p \<in> set ([]::string list). stripped p"
    by simp
  from split_loop_stripped [OF this run]
  have "\<forall>p \<in> set parts. stripped p" .
  then have "\<forall>p \<in> set (split_parts text max_length). stripped p"
    by (auto simp: split_parts_def run strip_stripped)
  then show ?thesis
    by (auto simp: stripped_strip_id)
qed

theorem parts_stripped_witness:
  "split_parts '' aaa\<newline>\<newline>bbb '' 5 = [''aaa'', ''bbb'']
   \<and> list_all (\<lambda>part. stripped part \<and> strip part = part)
        (split_parts '' aaa\<newline>\<newline>bbb '' 5)"
proof -
  have "split_parts '' aaa\<newline>\<newline>bbb '' 5 = [''aaa'', ''bbb'']"
    by code_simp
  with parts_stripped [of "'' aaa\<newline>\<newline>bbb ''" 5] show ?thesis
    by (simp only: list_all_iff simp_thms)
qed

section \<open>Properties of the delivery\<close>

lemma sent_texts_append: "sent_texts (a @ b) = sent_texts a @ sent_texts b"
  by (induction a rule: sent_texts.induct) simp_all

text \<open>
  C9. Short-circuit: when \<open>len(text) \<le> max_length\<close>, the boundary \<open>len(text) = max_length\<close>
  included, the delivery hands exactly one message to the transport, and its content is
  the text itself, with no part marker.
\<close>

theorem short_circuit:
  assumes "int (length text) \<le> max_length"
  shows "fst (send_long_message bot_api chat_id text max_length trace)
           = trace @ [Send chat_id text (bot_api trace chat_id text)]
         \<and> sent_texts (fst (send_long_message bot_api chat_id text max_length [])) = [text]"
  using assms by (simp add: send_long_message_def send_message_def)

theorem short_circuit_witness:
  "int (length ''abc'') \<le> 3
   \<and> fst (send_long_message accepting ''7'' ''abc'' 3 []) = [Send ''7'' ''abc'' None]
   \<and> sent_texts (fst (send_long_message accepting ''7'' ''abc'' 3 [])) = [''abc'']"
proof -
  have le: "int (length ''abc'') \<le> 3"
    by simp
  from short_circuit [OF le, of accepting "''7''" "[]"] le show ?thesis
    by (simp add: accepting_def)
qed

text \<open>
  C6. Empty delivery. As stated (the delivery of an empty text sends nothing) the claim
  fails: \<open>len("") = 0 \<le> max_length\<close> takes the short path, which sends the empty text.
\<close>

theorem empty_delivery_counterexample:
  "sent_texts (fst (send_long_message accepting ''7'' [] 4000 [])) = ['''']"
  by (simp add: send_long_message_def send_message_def)

text \<open>
  C6, amended. The empty reply is stopped one level up: the pass calls the delivery only
  under \<open>if response\<close>, so an empty reply reaches no transport; the delivery itself, when it
  is called with the empty text and a non-negative \<open>max_length\<close>, makes one send of the
  empty text.
\<close>

theorem empty_delivery:
  assumes "0 \<le> max_length"
  shows "process_messages_try bot_api user_id (Returned (Some [])) trace = (trace, None)
         \<and> fst (send_long_message bot_api chat_id [] max_length trace)
             = trace @ [Send chat_id [] (bot_api trace chat_id [])]"
  using assms by (simp add: send_long_message_def send_message_def)

theorem empty_delivery_witness:
  "(0::int) \<le> 4000
   \<and> process_messages_try accepting ''7'' (Returned (Some [])) [] = ([], None)
   \<and> fst (send_long_message accepting ''7'' [] 4000 []) = [Send ''7'' [] None]"
proof -
  have nn: "(0::int) \<le> 4000"
    by simp
  from empty_delivery [OF nn, of accepting "''7''" "[]" "''7''"] show ?thesis
    by (simp add: accepting_def)
qed


lemma length_part_messages: "length (part_messages total_parts i parts) = length parts"
  by (induction parts arbitrary: i) simp_all

lemma part_messages_nth:
  "k < length parts \<Longrightarrow>
   part_messages total_parts i parts ! k = part_message total_parts (i + k) (parts ! k)"
proof (induction parts arbitrary: i k)
  case Nil
  then show ?case by simp
next
  case (Cons part rest)
  then show ?case by (cases k) simp_all
qed

lemma send_parts_unrefused:
  assumes "\<forall>t e. \<forall>m \<in> set (part_messages total_parts i parts).
             bot_api t chat_id m = Some e \<longrightarrow> \<not> is_too_long e"
  shows "snd (send_parts bot_api chat_id max_length total_parts i parts trace) = None
         \<and> sent_texts (fst (send_parts bot_api chat_id max_length total_parts i parts trace))
             = sent_texts trace @ part_messages total_parts i parts"
  using assms
proof (induction parts arbitrary: i trace)
  case Nil
  show ?case by simp
next
  case (Cons part rest)
  have rest: "\<forall>t e. \<forall>m \<in> set (part_messages total_parts (Suc i) rest).
             bot_api t chat_id m = Some e \<longrightarrow> \<not> is_too_long e"
    using Cons.prems by simp
  note IH = Cons.IH [OF rest]
  show ?case
  proof (cases "bot_api trace chat_id (part_message total_parts i part)")
    case None
    then show ?thesis
      using IH by (simp add: sent_texts_append)
  next
    case (Some e)
    with Cons.prems have "\<not> is_too_long e" by simp
    with Some show ?thesis
      using IH by (simp add: sent_texts_append)
  qed
qed

lemma part_messages_set:
  assumes "m \<in> set (part_messages total_parts 1 parts)"
  shows "\<exists>i. 1 \<le> i \<and> i \<le> length parts \<and> m = part_message total_parts i (parts ! (i - 1))"
proof -
  from assms obtain k where k: "k < length parts" "part_messages total_parts 1 parts ! k = m"
    by (auto simp: in_set_conv_nth length_part_messages)
  then have "m = part_message total_parts (1 + k) (parts ! k)"
    by (simp add: part_messages_nth)
  with k(1) have "1 \<le> Suc k \<and> Suc k \<le> length parts
      \<and> m = part_message total_parts (Suc k) (parts ! (Suc k - 1))"
    by simp
  then show ?thesis by blast
qed

text \<open>
  C8. Marker correctness. As stated the claim fails: when the transport refuses a marked
  part as too long, its windows are sent before the next part, so the i-th message sent is
  no longer the i-th marked part. Below, a transport with a limit of 5 characters and two
  parts: the second message sent is the window \<open>"Par"\<close>.
\<close>

theorem marker_correctness_counterexample:
  "int (length ''ab\<newline>\<newline>cd'') > 3
   \<and> split_parts ''ab\<newline>\<newline>cd'' 3 = [''ab'', ''cd'']
   \<and> sent_texts (fst (send_long_message (limited 5) ''7'' ''ab\<newline>\<newline>cd'' 3 []))
       = [''Part 1/2:\<newline>\<newline>ab'', ''Par'', ''t 1'', ''/2:'', ''\<newline>\<newline>a'', ''b'',
          ''Part 2/2:\<newline>\<newline>cd'', ''Par'', ''t 2'', ''/2:'', ''\<newline>\<newline>c'', ''d'']
   \<and> sent_texts (fst (send_long_message (limited 5) ''7'' ''ab\<newline>\<newline>cd'' 3 [])) ! 1
       \<noteq> ''Part 2/2:\<newline>\<newline>cd''"
  by code_simp

text \<open>
  C8, amended. Whenever the paragraph split yields more than one part, the message built
  for the i-th part is \<open>"Part i/N:\n\n"\<close> followed by that part, for every i from 1 to the
  number N of parts; and when the transport refuses none of these messages as too long
  (so no window is sent in between), the i-th message sent is that message. With a single
  part the message is the part, with no marker.
\<close>

theorem marker_correctness:
  assumes "int (length text) > max_length"
    and "parts = split_parts text max_length"
    and "\<forall>t e i. 1 \<le> i \<and> i \<le> length parts \<longrightarrow>
           bot_api t chat_id (part_message (length parts) i (parts ! (i - 1))) = Some e \<longrightarrow>
           \<not> is_too_long e"
    and "sent = sent_texts (fst (send_long_message bot_api chat_id text max_length []))"
  shows "length sent = length parts
         \<and> (length parts > 1 \<longrightarrow>
              (\<forall>i. 1 \<le> i \<and> i \<le> length parts \<longrightarrow>
                 part_message (length parts) i (parts ! (i - 1))
                   = ''Part '' @ str_nat i @ ''/'' @ str_nat (length parts)
                       @ '':\<newline>\<newline>'' @ parts ! (i - 1)
                 \<and> sent ! (i - 1) = ''Part '' @ str_nat i @ ''/'' @ str_nat (length parts)
                                   @ '':\<newline>\<newline>'' @ parts ! (i - 1)))
         \<and> (length parts = 1 \<longrightarrow> sent = parts)"
proof -
  have nt: "\<forall>t e. \<forall>m \<in> set (part_messages (length parts) 1 parts).
             bot_api t chat_id m = Some e \<longrightarrow> \<not> is_too_long e"
    using assms(3) part_messages_set [of _ "length parts" parts] by metis
  have sent: "sent = part_messages (length parts) 1 parts"
    using assms(1,2,4) send_parts_unrefused [where bot_api = bot_api and chat_id = chat_id
        and total_parts = "length parts" and i = 1 and parts = parts
        and max_length = max_length and trace = "[]", OF nt]
    by (simp add: send_long_message_def Let_def)
  have "part_message (length parts) i (parts ! (i - 1))
                   = ''Part '' @ str_nat i @ ''/'' @ str_nat (length parts)
                       @ '':\<newline>\<newline>'' @ parts ! (i - 1)
        \<and> sent ! (i - 1) = ''Part '' @ str_nat i @ ''/'' @ str_nat (length parts)
                          @ '':\<newline>\<newline>'' @ parts ! (i - 1)"
    if "length parts > 1" "1 \<le> i" "i \<le> length parts" for i
  proof -
    from that have "i - 1 < length parts" by simp
    then have "sent ! (i - 1) = part_message (length parts) (1 + (i - 1)) (parts ! (i - 1))"
      unfolding sent by (rule part_messages_nth)
    with that show ?thesis
      by (simp add: part_message_def header_def blank_line_def nl_def)
  qed
  moreover have "sent = parts" if "length parts = 1"
  proof -
    from that obtain part where "parts = [part]"
      by (cases parts) simp_all
    then show ?thesis
      unfolding sent by (simp add: part_message_def)
  qed
  ultimately show ?thesis
    by (simp add: sent length_part_messages)
qed

theorem marker_correctness_witness:
  "int (length ''ab\<newline>\<newline>cd\<newline>\<newline>ef'') > 3
   \<and> split_parts ''ab\<newline>\<newline>cd\<newline>\<newline>ef'' 3 = [''ab'', ''cd'', ''ef'']
   \<and> limited 20 [] ''7'' (replicate 21 CHR ''x'') = Some (BadRequest ''Message is too long'')
   \<and> length (sent_texts (fst (send_long_message (limited 20) ''7'' ''ab\<newline>\<newline>cd\<newline>\<newline>ef'' 3 []))) = 3
   \<and> sent_texts (fst (send_long_message (limited 20) ''7'' ''ab\<newline>\<newline>cd\<newline>\<newline>ef'' 3 [])) ! 1
       = ''Part 2/3:\<newline>\<newline>cd''"
proof -
  have len: "int (length ''ab\<newline>\<newline>cd\<newline>\<newline>ef'') > 3"
    by simp
  have parts: "[''ab'', ''cd'', ''ef''] = split_parts ''ab\<newline>\<newline>cd\<newline>\<newline>ef'' 3"
    by code_simp
  have hard: "limited 20 [] ''7'' (replicate 21 CHR ''x'') = Some (BadRequest ''Message is too long'')"
    by (simp add: limited_def)
  have pm: "part_message 3 1 ''ab'' = ''Part 1/3:\<newline>\<newline>ab''"
    "part_message 3 2 ''cd'' = ''Part 2/3:\<newline>\<newline>cd''"
    "part_message 3 3 ''ef'' = ''Part 3/3:\<newline>\<newline>ef''"
    by code_simp+
  have s2: "str_nat 2 = ''2''" and s3: "str_nat 3 = ''3''"
    by code_simp+
  have l3: "length [''ab'', ''cd'', ''ef''] = 3"
    by simp
  have m1: "limited 20 t ''7'' (part_message 3 1 ([''ab'', ''cd'', ''ef''] ! (1 - 1))) = None" for t
    unfolding limited_def by code_simp
  have m2: "limited 20 t ''7'' (part_message 3 2 ([''ab'', ''cd'', ''ef''] ! (2 - 1))) = None" for t
    unfolding limited_def by code_simp
  have m3: "limited 20 t ''7'' (part_message 3 3 ([''ab'', ''cd'', ''ef''] ! (3 - 1))) = None" for t
    unfolding limited_def by code_simp
  have ok: "limited 20 t ''7'' (part_message (length [''ab'', ''cd'', ''ef'']) i
                                  ([''ab'', ''cd'', ''ef''] ! (i - 1))) = None"
    if "1 \<le> i \<and> i \<le> length [''ab'', ''cd'', ''ef'']" for t i
  proof -
    from that have "i = 1 \<or> i = 2 \<or> i = 3"
      by auto
    then show ?thesis
      unfolding l3
    proof (elim disjE)
      assume "i = 1"
      with m1 [of t] show "limited 20 t ''7''
          (part_message 3 i ([''ab'', ''cd'', ''ef''] ! (i - 1))) = None"
        by (simp only:)
    next
      assume "i = 2"
      with m2 [of t] show "limited 20 t ''7''
          (part_message 3 i ([''ab'', ''cd'', ''ef''] ! (i - 1))) = None"
        by (simp only:)
    next
      assume "i = 3"
      with m3 [of t] show "limited 20 t ''7''
          (part_message 3 i ([''ab'', ''cd'', ''ef''] ! (i - 1))) = None"
        by (simp only:)
    qed
  qed
  have unrefused: "\<forall>t e i. 1 \<le> i \<and> i \<le> length [''ab'', ''cd'', ''ef''] \<longrightarrow>
      limited 20 t ''7'' (part_message (length [''ab'', ''cd'', ''ef'']) i
                            ([''ab'', ''cd'', ''ef''] ! (i - 1))) = Some e \<longrightarrow>
      \<not> is_too_long e"
    using ok by simp
  note mc = marker_correctness [of 3 "''ab\<newline>\<newline>cd\<newline>\<newline>ef''" "[''ab'', ''cd'', ''ef'']"
      "limited 20" "''7''"
      "sent_texts (fst (send_long_message (limited 20) ''7'' ''ab\<newline>\<newline>cd\<newline>\<newline>ef'' 3 []))",
      OF len parts unrefused refl]
  from mc have n: "length (sent_texts (fst (send_long_message (limited 20) ''7''
                      ''ab\<newline>\<newline>cd\<newline>\<newline>ef'' 3 []))) = 3"
    by simp
  from mc have "\<forall>i. 1 \<le> i \<and> i \<le> length [''ab'', ''cd'', ''ef''] \<longrightarrow>
      sent_texts (fst (send_long_message (limited 20) ''7'' ''ab\<newline>\<newline>cd\<newline>\<newline>ef'' 3 [])) ! (i - 1)
        = ''Part '' @ str_nat i @ ''/'' @ str_nat (length [''ab'', ''cd'', ''ef''])
            @ '':\<newline>\<newline>'' @ [''ab'', ''cd'', ''ef''] ! (i - 1)"
    by simp
  from this [rule_format, of 2] show ?thesis
    using len parts [symmetric] hard n by (simp add: s2 s3 numeral_3_eq_3 [symmetric])
qed





lemma ceil_div_step:
  assumes "0 < n" "0 < l"
  shows "(l + n - 1) div n = Suc ((l - 1) div n)"
proof -
  have eq: "l + n - 1 = (l - 1) + n"
    using assms(2) by simp
  have "((l - 1) + n) div n = Suc ((l - 1) div n)"
    using assms(1) by (simp add: div_add_self2)
  then show ?thesis
    by (simp only: eq)
qed

lemma windows_Nil: "windows n [] = []"
  by (cases "n = 0") (simp_all add: windows_def)

lemma windows_rec:
  assumes "0 < n" "message \<noteq> []"
  shows "windows n message = take n message # windows n (drop n message)"
proof -
  define k where "k = (length (drop n message) + n - 1) div n"
  have len: "0 < length message" using assms(2) by simp
  have k: "k = (length message - 1) div n"
  proof (cases "n \<le> length message")
    case True
    then have "length message - n + n - 1 = length message - 1"
      by simp
    then show ?thesis
      by (simp add: k_def)
  next
    case False
    then have "length message - 1 < n" "length message - n = 0" "n - 1 < n"
      using assms(1) by simp_all
    then show ?thesis
      by (simp add: k_def)
  qed
  have "(length message + n - 1) div n = Suc k"
    unfolding k using assms(1) len by (rule ceil_div_step)
  then have "windows n message
      = map (\<lambda>i. take n (drop i message)) (map (\<lambda>j. j * n) [0 ..< Suc k])"
    by (simp add: windows_def)
  also have "[0 ..< Suc k] = 0 # map Suc [0 ..< k]"
    by (simp add: upt_conv_Cons map_Suc_upt del: upt_Suc)
  also have "map (\<lambda>i. take n (drop i message)) (map (\<lambda>j. j * n) (0 # map Suc [0 ..< k]))
      = take n message # map (\<lambda>i. take n (drop i (drop n message))) (map (\<lambda>j. j * n) [0 ..< k])"
    by (simp add: add.commute)
  finally show ?thesis
    by (simp add: windows_def k_def)
qed

lemma concat_windows: "0 < n \<Longrightarrow> concat (windows n message) = message"
proof (induction message rule: length_induct)
  case (1 message)
  show ?case
  proof (cases "message = []")
    case True
    then show ?thesis by (simp add: windows_Nil)
  next
    case False
    with 1 have "concat (windows n (drop n message)) = drop n message"
      by simp
    with False 1(2) show ?thesis
      by (simp add: windows_rec)
  qed
qed

lemma windows_length_le: "w \<in> set (windows n message) \<Longrightarrow> length w \<le> n"
  by (auto simp: windows_def)

lemma windows_full:
  assumes "0 < n" "Suc k < length (windows n message)"
  shows "length (windows n message ! k) = n"
proof -
  let ?q = "(length message + n - 1) div n"
  have q: "Suc k < ?q" using assms(2) by (simp add: windows_def)
  then have "Suc (Suc k) \<le> ?q" by simp
  then have "Suc (Suc k) * n \<le> ?q * n" by (rule mult_le_mono1)
  also have "\<dots> \<le> length message + n - 1" by simp
  finally have "Suc k * n + n \<le> length message + n - 1" by simp
  then have "k * n + n \<le> length message" using assms(1) by simp
  moreover have "windows n message ! k = take n (drop (k * n) message)"
    using q by (simp add: windows_def)
  ultimately show ?thesis by simp
qed

lemma windows_three:
  assumes "0 < n" "length message = 3 * n"
  shows "windows n message = [take n message, take n (drop n message), drop (2 * n) message]"
proof -
  have "(3 * n + n - 1) div n = 3"
    using assms(1) by (intro div_nat_eqI) simp_all
  moreover have "[0 ..< 3] = [0, 1, 2]"
    by (simp add: upt_rec numeral_3_eq_3)
  ultimately show ?thesis
    using assms by (simp add: windows_def)
qed

lemma send_subparts_accepted:
  assumes "\<forall>t. \<forall>w \<in> set ws. bot_api t chat_id w = None"
  shows "send_subparts bot_api chat_id ws trace
           = (trace @ concat (map (\<lambda>w. [Send chat_id w None, Sleep]) ws), None)"
  using assms by (induction ws arbitrary: trace) simp_all


lemma fallback_step:
  assumes fail: "bot_api trace chat_id (part_message total_parts i part) = Some e"
    and long: "is_too_long e"
    and pos: "0 < max_length"
    and acc: "\<forall>t w. length w \<le> nat max_length \<longrightarrow> bot_api t chat_id w = None"
  shows "send_parts bot_api chat_id max_length total_parts i (part # rest) trace
           = send_parts bot_api chat_id max_length total_parts (Suc i) rest
               (trace @ [Send chat_id (part_message total_parts i part) (Some e),
                         Print (''Error sending message part '' @ str_nat i @ '': '' @ str_exn e)]
                  @ concat (map (\<lambda>w. [Send chat_id w None, Sleep])
                              (windows (nat max_length) (part_message total_parts i part))))"
proof -
  let ?message = "part_message total_parts i part"
  let ?trace1 = "trace @ [Send chat_id ?message (Some e),
                          Print (''Error sending message part '' @ str_nat i @ '': '' @ str_exn e)]"
  have sub: "subparts max_length ?message = Inr (windows (nat max_length) ?message)"
    using pos by (simp add: subparts_def)
  have "\<forall>t. \<forall>w \<in> set (windows (nat max_length) ?message). bot_api t chat_id w = None"
    using acc windows_length_le by blast
  then have "send_subparts bot_api chat_id (windows (nat max_length) ?message) ?trace1
               = (?trace1 @ concat (map (\<lambda>w. [Send chat_id w None, Sleep])
                                     (windows (nat max_length) ?message)), None)"
    by (rule send_subparts_accepted)
  with fail long sub show ?thesis
    by (simp add: Let_def)
qed

lemma split_parts_single:
  assumes "split_blank text = [text]" "stripped text" "text \<noteq> []"
  shows "split_parts text max_length = [text]"
  using assms by (simp add: split_parts_def stripped_strip_id)

text \<open>
  C5. Oversize fallback. The claim has a single paragraph of length \<open>3 * max_length\<close>
  always cut into exactly 3 windows. The part is stripped before it is sent, so a paragraph
  that ends in whitespace is shorter when the windows are cut: below, six characters with
  \<open>max_length = 2\<close> give two windows.
\<close>

theorem oversize_fallback_counterexample:
  "length ''aaa   '' = 3 * 2
   \<and> split_blank ''aaa   '' = [''aaa   '']
   \<and> send_long_message (limited 2) ''7'' ''aaa   '' 2 []
       = ([Send ''7'' ''aaa'' (Some (BadRequest ''Message is too long'')),
           Print ''Error sending message part 1: Message is too long'',
           Send ''7'' ''aa'' None, Sleep,
           Send ''7'' ''a'' None, Sleep], None)"
  by code_simp

text \<open>
  C5, amended. When the send of a message (the part, with its marker when there are
  several parts) is refused as too long and \<open>max_length\<close> is positive, the message is cut
  into consecutive windows of \<open>max_length\<close> characters, the last one possibly shorter, which
  are sent in order, each followed by the delay, as long as the transport accepts texts of
  that size; then the loop goes on. For a text that is a single paragraph of length
  \<open>3 * max_length\<close> with no blank line and no whitespace at either end, exactly three windows
  of length \<open>max_length\<close> are sent, in order.
\<close>

theorem oversize_fallback:
  "(bot_api trace chat_id (part_message total_parts i part) = Some e \<and> is_too_long e
      \<and> 0 < max_length
      \<and> (\<forall>t w. length w \<le> nat max_length \<longrightarrow> bot_api t chat_id w = None)
    \<longrightarrow> send_parts bot_api chat_id max_length total_parts i (part # rest) trace
          = send_parts bot_api chat_id max_length total_parts (Suc i) rest
              (trace @ [Send chat_id (part_message total_parts i part) (Some e),
                        Print (''Error sending message part '' @ str_nat i @ '': '' @ str_exn e)]
                 @ concat (map (\<lambda>w. [Send chat_id w None, Sleep])
                             (windows (nat max_length) (part_message total_parts i part))))
        \<and> concat (windows (nat max_length) (part_message total_parts i part))
            = part_message total_parts i part
        \<and> (\<forall>k. Suc k < length (windows (nat max_length) (part_message total_parts i part)) \<longrightarrow>
              length (windows (nat max_length) (part_message total_parts i part) ! k)
                = nat max_length))
   \<and> (split_blank text = [text] \<and> stripped text \<and> length text = 3 * nat max_length
        \<and> 0 < max_length
        \<and> bot_api [] chat_id text = Some e \<and> is_too_long e
        \<and> (\<forall>t w. length w \<le> nat max_length \<longrightarrow> bot_api t chat_id w = None)
      \<longrightarrow> send_long_message bot_api chat_id text max_length []
            = ([Send chat_id text (Some e),
                Print (''Error sending message part '' @ str_nat 1 @ '': '' @ str_exn e),
                Send chat_id (take (nat max_length) text) None, Sleep,
                Send chat_id (take (nat max_length) (drop (nat max_length) text)) None, Sleep,
                Send chat_id (drop (2 * nat max_length) text) None, Sleep], None)
          \<and> length (take (nat max_length) text) = nat max_length
          \<and> length (take (nat max_length) (drop (nat max_length) text)) = nat max_length
          \<and> length (drop (2 * nat max_length) text) = nat max_length)"
proof (intro conjI impI)
  assume h: "bot_api trace chat_id (part_message total_parts i part) = Some e \<and> is_too_long e
      \<and> 0 < max_length
      \<and> (\<forall>t w. length w \<le> nat max_length \<longrightarrow> bot_api t chat_id w = None)"
  from h have fail: "bot_api trace chat_id (part_message total_parts i part) = Some e"
    and long: "is_too_long e" and pos: "0 < max_length"
    and acc: "\<forall>t w. length w \<le> nat max_length \<longrightarrow> bot_api t chat_id w = None"
    by simp_all
  from fail long pos acc
  show "send_parts bot_api chat_id max_length total_parts i (part # rest) trace
          = send_parts bot_api chat_id max_length total_parts (Suc i) rest
              (trace @ [Send chat_id (part_message total_parts i part) (Some e),
                        Print (''Error sending message part '' @ str_nat i @ '': '' @ str_exn e)]
                 @ concat (map (\<lambda>w. [Send chat_id w None, Sleep])
                             (windows (nat max_length) (part_message total_parts i part))))"
    by (rule fallback_step)
  from pos have npos: "0 < nat max_length"
    by simp
  from npos show "concat (windows (nat max_length) (part_message total_parts i part))
            = part_message total_parts i part"
    by (rule concat_windows)
  from npos show "\<forall>k. Suc k < length (windows (nat max_length) (part_message total_parts i part)) \<longrightarrow>
              length (windows (nat max_length) (part_message total_parts i part) ! k)
                = nat max_length"
  proof (intro allI impI)
    fix k
    assume "Suc k < length (windows (nat max_length) (part_message total_parts i part))"
    with npos show "length (windows (nat max_length) (part_message total_parts i part) ! k)
                      = nat max_length"
      by (rule windows_full)
  qed
next
  assume h: "split_blank text = [text] \<and> stripped text \<and> length text = 3 * nat max_length
        \<and> 0 < max_length
        \<and> bot_api [] chat_id text = Some e \<and> is_too_long e
        \<and> (\<forall>t w. length w \<le> nat max_length \<longrightarrow> bot_api t chat_id w = None)"
  from h have single: "split_blank text = [text]" and st: "stripped text"
    and len: "length text = 3 * nat max_length" and mpos: "0 < max_length"
    and fail: "bot_api [] chat_id text = Some e" and long: "is_too_long e"
    and acc: "\<forall>t w. length w \<le> nat max_length \<longrightarrow> bot_api t chat_id w = None"
    by simp_all
  from mpos have pos: "0 < nat max_length"
    by simp
  with len have ne: "text \<noteq> []"
    by auto
  from single st ne have parts: "split_parts text max_length = [text]"
    by (rule split_parts_single)
  have pm: "part_message 1 1 text = text"
    by (simp add: part_message_def)
  have over: "\<not> int (length text) \<le> max_length"
    using pos len by simp
  from fail have fail': "bot_api [] chat_id (part_message 1 1 text) = Some e"
    by (simp only: pm)
  have "send_parts bot_api chat_id max_length 1 1 [text] []
           = send_parts bot_api chat_id max_length 1 (Suc 1) []
               ([] @ [Send chat_id (part_message 1 1 text) (Some e),
                         Print (''Error sending message part '' @ str_nat 1 @ '': '' @ str_exn e)]
                  @ concat (map (\<lambda>w. [Send chat_id w None, Sleep])
                              (windows (nat max_length) (part_message 1 1 text))))"
    using fail' long mpos acc by (rule fallback_step)
  also have "\<dots> = ([Send chat_id text (Some e),
                Print (''Error sending message part '' @ str_nat 1 @ '': '' @ str_exn e),
                Send chat_id (take (nat max_length) text) None, Sleep,
                Send chat_id (take (nat max_length) (drop (nat max_length) text)) None, Sleep,
                Send chat_id (drop (2 * nat max_length) text) None, Sleep], None)"
    unfolding pm windows_three [OF pos len] by simp
  finally have run: "send_parts bot_api chat_id max_length 1 1 [text] []
           = ([Send chat_id text (Some e),
                Print (''Error sending message part '' @ str_nat 1 @ '': '' @ str_exn e),
                Send chat_id (take (nat max_length) text) None, Sleep,
                Send chat_id (take (nat max_length) (drop (nat max_length) text)) None, Sleep,
                Send chat_id (drop (2 * nat max_length) text) None, Sleep], None)" .
  have "send_long_message bot_api chat_id text max_length []
          = send_parts bot_api chat_id max_length 1 1 [text] []"
    using over by (simp add: send_long_message_def parts del: send_parts.simps)
  with run
  show "send_long_message bot_api chat_id text max_length []
            = ([Send chat_id text (Some e),
                Print (''Error sending message part '' @ str_nat 1 @ '': '' @ str_exn e),
                Send chat_id (take (nat max_length) text) None, Sleep,
                Send chat_id (take (nat max_length) (drop (nat max_length) text)) None, Sleep,
                Send chat_id (drop (2 * nat max_length) text) None, Sleep], None)"
    by (simp only:)
  show "length (take (nat max_length) text) = nat max_length"
    using len by simp
  show "length (take (nat max_length) (drop (nat max_length) text)) = nat max_length"
    using len by simp
  show "length (drop (2 * nat max_length) text) = nat max_length"
    using len by simp
qed


theorem oversize_fallback_witness:
  "split_blank ''abcdef'' = [''abcdef''] \<and> stripped ''abcdef''
   \<and> length ''abcdef'' = 3 * nat 2
   \<and> limited 2 [] ''7'' ''abcdef'' = Some (BadRequest ''Message is too long'')
   \<and> is_too_long (BadRequest ''Message is too long'')
   \<and> send_long_message (limited 2) ''7'' ''abcdef'' 2 []
       = ([Send ''7'' ''abcdef'' (Some (BadRequest ''Message is too long'')),
           Print ''Error sending message part 1: Message is too long'',
           Send ''7'' ''ab'' None, Sleep,
           Send ''7'' ''cd'' None, Sleep,
           Send ''7'' ''ef'' None, Sleep], None)
   \<and> send_parts (limited 2) ''7'' 2 1 1 [''abcdef'', ''x''] []
       = send_parts (limited 2) ''7'' 2 1 (Suc 1) [''x'']
           [Send ''7'' ''abcdef'' (Some (BadRequest ''Message is too long'')),
            Print ''Error sending message part 1: Message is too long'',
            Send ''7'' ''ab'' None, Sleep,
            Send ''7'' ''cd'' None, Sleep,
            Send ''7'' ''ef'' None, Sleep]"
proof -
  have single: "split_blank ''abcdef'' = [''abcdef'']"
    by code_simp
  have st: "stripped ''abcdef''"
    by code_simp
  have len: "length ''abcdef'' = 3 * nat 2"
    by simp
  have fail: "limited 2 [] ''7'' ''abcdef'' = Some (BadRequest ''Message is too long'')"
    by (simp add: limited_def)
  have long: "is_too_long (BadRequest ''Message is too long'')"
    by code_simp
  have acc: "\<forall>t w. length w \<le> nat 2 \<longrightarrow> limited 2 t ''7'' w = None"
    by (simp add: limited_def)
  have pm: "part_message 1 1 ''abcdef'' = ''abcdef''"
    by (simp add: part_message_def)
  have line: "''Error sending message part '' @ str_nat 1 @ '': ''
                @ str_exn (BadRequest ''Message is too long'')
              = ''Error sending message part 1: Message is too long''"
    by code_simp
  have wins: "windows (nat 2) ''abcdef'' = [''ab'', ''cd'', ''ef'']"
    by code_simp
  have cut: "take (nat 2) ''abcdef'' = ''ab''" "take (nat 2) (drop (nat 2) ''abcdef'') = ''cd''"
    "drop (2 * nat 2) ''abcdef'' = ''ef''"
    by code_simp+
  note inst = oversize_fallback [of "limited 2" "[]" "''7''" 1 1 "''abcdef''"
      "BadRequest ''Message is too long''" 2 "[''x'']" "''abcdef''",
      unfolded pm line wins cut]
  from inst single st len fail long acc show ?thesis
    by (simp del: send_parts.simps)
qed

section \<open>The paragraph round trip\<close>

lemma join_blank_Cons: "ps \<noteq> [] \<Longrightarrow> join_blank (p # ps) = p @ blank_line @ join_blank ps"
  by (cases ps) simp_all

lemma join_blank_append:
  "xs \<noteq> [] \<Longrightarrow> ys \<noteq> [] \<Longrightarrow> join_blank (xs @ ys) = join_blank xs @ blank_line @ join_blank ys"
proof (induction xs rule: join_blank.induct)
  case 1
  then show ?case by simp
next
  case (2 p)
  then show ?case by (simp add: join_blank_Cons)
next
  case (3 p q ps)
  then show ?case by simp
qed

lemma join_split_acc: "join_blank (split_acc cur s) = cur @ s"
proof (induction cur s rule: split_acc.induct)
  case (1 cur)
  show ?case by simp
next
  case (2 cur c)
  show ?case by simp
next
  case (3 cur c d cs)
  show ?case
  proof (cases "c = nl \<and> d = nl")
    case True
    with 3 show ?thesis
      by (simp add: join_blank_Cons split_acc_not_Nil blank_line_def)
  next
    case False
    with 3 show ?thesis
      by auto
  qed
qed

lemma join_split_blank: "join_blank (split_blank text) = text"
  by (simp add: split_blank_def join_split_acc)

lemma join_clean:
  assumes "g \<noteq> []" "\<forall>p \<in> set g. clean p"
  shows "join_blank g \<noteq> [] \<and> hd (join_blank g) = hd (hd g) \<and> last (join_blank g) = last (last g)"
  using assms
proof (induction g rule: join_blank.induct)
  case 1
  then show ?case by simp
next
  case (2 p)
  then show ?case by (simp add: clean_def)
next
  case (3 p q ps)
  then show ?case by (simp add: clean_def blank_line_def)
qed

lemma strip_join_clean:
  assumes "g \<noteq> []" "\<forall>p \<in> set g. clean p"
  shows "strip (join_blank g) = join_blank g"
proof -
  from assms have "clean (hd g)" "clean (last g)"
    by simp_all
  with join_clean [OF assms] have "stripped (join_blank g)"
    by (auto simp: stripped_def clean_def)
  then show ?thesis
    by (rule stripped_strip_id)
qed

lemma split_loop_groups:
  assumes "\<forall>p \<in> set ps. clean p" "g \<noteq> []" "\<forall>p \<in> set g. clean p"
  shows "\<exists>gs g'. split_loop max_length ps parts (join_blank g)
                     = (parts @ map join_blank gs, join_blank g')
                 \<and> g' \<noteq> [] \<and> [] \<notin> set gs \<and> (\<forall>p \<in> set g'. clean p)
                 \<and> concat gs @ g' = g @ ps"
  using assms
proof (induction ps arbitrary: parts g)
  case Nil
  then have "split_loop max_length [] parts (join_blank g) = (parts @ map join_blank [], join_blank g)
             \<and> g \<noteq> [] \<and> [] \<notin> set [] \<and> (\<forall>p \<in> set g. clean p) \<and> concat [] @ g = g @ []"
    by simp
  then show ?case by blast
next
  case (Cons p ps)
  have ne: "join_blank g \<noteq> []"
    using join_clean [OF Cons.prems(2,3)] by simp
  have st: "strip (join_blank g) = join_blank g"
    using Cons.prems(2,3) by (rule strip_join_clean)
  have cp: "clean p" and cps: "\<forall>q \<in> set ps. clean q"
    using Cons.prems(1) by simp_all
  show ?case
  proof (cases "int (length (join_blank g)) + int (length p) + 2 > max_length")
    case True
    have "\<forall>q \<in> set [p]. clean q" using cp by simp
    from Cons.IH [OF cps _ this, of "parts @ [join_blank g]"]
    obtain gs g' where r: "split_loop max_length ps (parts @ [join_blank g]) (join_blank [p])
                     = ((parts @ [join_blank g]) @ map join_blank gs, join_blank g')"
      "g' \<noteq> []" "[] \<notin> set gs" "\<forall>q \<in> set g'. clean q" "concat gs @ g' = [p] @ ps"
      by blast
    have "split_loop max_length (p # ps) parts (join_blank g)
            = (parts @ map join_blank (g # gs), join_blank g')"
      using True ne st r(1) by simp
    moreover have "[] \<notin> set (g # gs)" using r(3) Cons.prems(2) by auto
    moreover have "concat (g # gs) @ g' = g @ p # ps" using r(5) by simp
    ultimately show ?thesis
      using r(2,4) by blast
  next
    case False
    have j: "join_blank (g @ [p]) = join_blank g @ blank_line @ p"
      using Cons.prems(2) by (simp add: join_blank_append)
    have "g @ [p] \<noteq> []" by simp
    moreover have "\<forall>q \<in> set (g @ [p]). clean q" using cp Cons.prems(3) by simp
    ultimately obtain gs g' where r: "split_loop max_length ps parts (join_blank (g @ [p]))
                     = (parts @ map join_blank gs, join_blank g')"
      "g' \<noteq> []" "[] \<notin> set gs" "\<forall>q \<in> set g'. clean q" "concat gs @ g' = (g @ [p]) @ ps"
      using Cons.IH [OF cps, of "g @ [p]" parts] by blast
    have "split_loop max_length (p # ps) parts (join_blank g)
            = (parts @ map join_blank gs, join_blank g')"
      using False ne r(1) by (simp add: j)
    moreover have "concat gs @ g' = g @ p # ps" using r(5) by simp
    ultimately show ?thesis
      using r(2,3,4) by blast
  qed
qed

lemma join_blank_groups:
  "[] \<notin> set groups \<Longrightarrow> join_blank (map join_blank groups) = join_blank (concat groups)"
proof (induction groups)
  case Nil
  show ?case by simp
next
  case (Cons g groups)
  show ?case
  proof (cases "groups = []")
    case True
    then show ?thesis by simp
  next
    case False
    with Cons.prems have "concat groups \<noteq> []"
      by (cases groups) auto
    moreover from Cons.prems have "g \<noteq> []" by auto
    ultimately show ?thesis
      using False Cons by (simp add: join_blank_Cons join_blank_append)
  qed
qed

lemma split_parts_groups:
  assumes "paragraphs_clean text"
  shows "\<exists>groups. [] \<notin> set groups \<and> concat groups = split_blank text
                  \<and> split_parts text max_length = map join_blank groups"
proof -
  obtain p ps where sp: "split_blank text = p # ps"
    using split_acc_not_Nil [of "[]" "text"] by (cases "split_blank text") (simp_all add: split_blank_def)
  from assms sp have cp: "clean p" and cps: "\<forall>q \<in> set ps. clean q"
    by (simp_all add: paragraphs_clean_def list_all_iff)
  have first: "split_loop max_length (p # ps) [] [] = split_loop max_length ps [] (join_blank [p])"
    by simp
  have "\<forall>q \<in> set [p]. clean q" using cp by simp
  from split_loop_groups [OF cps _ this, of max_length "[]"]
  obtain gs g' where r: "split_loop max_length ps [] (join_blank [p]) = ([] @ map join_blank gs, join_blank g')"
      "g' \<noteq> []" "[] \<notin> set gs" "\<forall>q \<in> set g'. clean q" "concat gs @ g' = [p] @ ps"
    by blast
  have ne: "join_blank g' \<noteq> []" and st: "strip (join_blank g') = join_blank g'"
    using join_clean [OF r(2,4)] strip_join_clean [OF r(2,4)] by simp_all
  have "split_parts text max_length = map join_blank (gs @ [g'])"
    using r(1) ne st by (simp add: split_parts_def sp first del: split_loop.simps)
  moreover have "[] \<notin> set (gs @ [g'])" using r(2,3) by auto
  moreover have "concat (gs @ [g']) = split_blank text" using r(5) sp by simp
  ultimately show ?thesis by blast
qed

lemma split_acc_cur:
  "split_acc cur s = (cur @ hd (split_acc [] s)) # tl (split_acc [] s)"
proof (induction s arbitrary: cur rule: induct_list012)
  case 1
  show ?case by simp
next
  case (2 c)
  show ?case by simp
next
  case (3 c d cs)
  show ?case
  proof (cases "c = nl \<and> d = nl")
    case True
    then show ?thesis by simp
  next
    case False
    then have "split_acc cur (c # d # cs) = split_acc (cur @ [c]) (d # cs)"
      and "split_acc [] (c # d # cs) = split_acc [c] (d # cs)"
      by auto
    then show ?thesis
      using "3.IH"(2) [of "cur @ [c]"] "3.IH"(2) [of "[c]"] by simp
  qed
qed

lemma no_blank_Nil: "no_blank []"
  by (simp add: no_blank_def)

lemma split_acc_no_blank: "no_blank p \<Longrightarrow> split_acc cur p = [cur @ p]"
  using split_acc_cur [of cur p] by (simp add: no_blank_def)

lemma first_piece_hd:
  assumes "hd (split_acc [] s) \<noteq> []"
  shows "hd (hd (split_acc [] s)) = hd s"
proof (cases s)
  case Nil
  with assms show ?thesis by simp
next
  case (Cons c s')
  show ?thesis
  proof (cases s')
    case Nil
    with Cons show ?thesis by simp
  next
    case (Cons d cs)
    show ?thesis
    proof (cases "c = nl \<and> d = nl")
      case True
      with assms \<open>s = c # s'\<close> Cons show ?thesis by simp
    next
      case False
      then have "split_acc [] (c # d # cs) = ([c] @ hd (split_acc [] (d # cs))) # tl (split_acc [] (d # cs))"
        using split_acc_cur [of "[c]" "d # cs"] by auto
      with \<open>s = c # s'\<close> Cons show ?thesis by simp
    qed
  qed
qed

lemma no_blank_Cons:
  assumes "no_blank q" "q = [] \<or> \<not> (c = nl \<and> hd q = nl)"
  shows "no_blank (c # q)"
proof (cases q)
  case Nil
  then show ?thesis by (simp add: no_blank_def)
next
  case (Cons d r)
  with assms(2) have "\<not> (c = nl \<and> d = nl)" by simp
  then have "split_acc [] (c # d # r) = split_acc [c] (d # r)"
    by auto
  also have "\<dots> = [c # d # r]"
    using assms(1) Cons by (simp add: split_acc_no_blank)
  finally show ?thesis
    using Cons by (simp add: no_blank_def)
qed

lemma pieces_no_blank: "\<forall>p \<in> set (split_acc [] s). no_blank p"
proof (induction s rule: induct_list012)
  case 1
  show ?case by (simp add: no_blank_Nil)
next
  case (2 c)
  show ?case by (simp add: no_blank_def)
next
  case (3 c d cs)
  show ?case
  proof (cases "c = nl \<and> d = nl")
    case True
    with "3.IH"(1) show ?thesis by (simp add: no_blank_Nil)
  next
    case False
    let ?X = "split_acc [] (d # cs)"
    have X: "?X \<noteq> []" by (rule split_acc_not_Nil)
    have eq: "split_acc [] (c # d # cs) = (c # hd ?X) # tl ?X"
      using False split_acc_cur [of "[c]" "d # cs"] by auto
    have "hd ?X \<in> set ?X" using X by simp
    with "3.IH"(2) have nb: "no_blank (hd ?X)" by blast
    have "hd ?X = [] \<or> \<not> (c = nl \<and> hd (hd ?X) = nl)"
      using False first_piece_hd [of "d # cs"] by auto
    with nb have "no_blank (c # hd ?X)" by (rule no_blank_Cons)
    moreover have "\<forall>p \<in> set (tl ?X). no_blank p"
      using "3.IH"(2) X by (metis list.set_sel(2))
    ultimately show ?thesis
      unfolding eq by simp
  qed
qed

lemma no_blank_tl:
  assumes "no_blank (c # q)"
  shows "no_blank q \<and> (q = [] \<or> \<not> (c = nl \<and> hd q = nl))"
proof (cases q)
  case Nil
  then show ?thesis by (simp add: no_blank_Nil)
next
  case (Cons d r)
  have ns: "\<not> (c = nl \<and> d = nl)"
  proof
    assume "c = nl \<and> d = nl"
    then have "split_acc [] (c # d # r) = [] # split_acc [] r" by simp
    with assms Cons show False by (simp add: no_blank_def)
  qed
  then have "split_acc [] (c # d # r) = ([c] @ hd (split_acc [] (d # r))) # tl (split_acc [] (d # r))"
    using split_acc_cur [of "[c]" "d # r"] by auto
  with assms Cons have "hd (split_acc [] (d # r)) = d # r" "tl (split_acc [] (d # r)) = []"
    by (simp_all add: no_blank_def)
  moreover have "split_acc [] (d # r) \<noteq> []" by (rule split_acc_not_Nil)
  ultimately have "split_acc [] (d # r) = [d # r]"
    by (cases "split_acc [] (d # r)") simp_all
  with ns Cons show ?thesis by (simp add: no_blank_def)
qed

lemma split_acc_separator:
  assumes "no_blank p" "p = [] \<or> last p \<noteq> nl"
  shows "split_acc cur (p @ blank_line @ rest) = (cur @ p) # split_acc [] rest"
  using assms
proof (induction p arbitrary: cur)
  case Nil
  show ?case by (simp add: blank_line_def)
next
  case (Cons c q)
  from no_blank_tl [OF Cons.prems(1)]
  have nbq: "no_blank q" and ns: "q = [] \<or> \<not> (c = nl \<and> hd q = nl)"
    by simp_all
  show ?case
  proof (cases q)
    case Nil
    with Cons.prems(2) have "c \<noteq> nl" by simp
    with Nil show ?thesis by (simp add: blank_line_def)
  next
    case (Cons d r)
    with ns have "\<not> (c = nl \<and> d = nl)" by simp
    then have "split_acc cur ((c # q) @ blank_line @ rest)
                 = split_acc (cur @ [c]) (q @ blank_line @ rest)"
      using Cons by auto
    moreover have "q = [] \<or> last q \<noteq> nl"
      using Cons.prems(2) Cons by simp
    ultimately show ?thesis
      using Cons.IH [OF nbq, of "cur @ [c]"] by simp
  qed
qed

lemma split_join:
  assumes "ps \<noteq> []" "\<forall>p \<in> set ps. no_blank p \<and> clean p"
  shows "split_acc cur (join_blank ps) = (cur @ hd ps) # tl ps"
  using assms
proof (induction ps arbitrary: cur rule: join_blank.induct)
  case 1
  then show ?case by simp
next
  case (2 p)
  then show ?case by (simp add: split_acc_no_blank)
next
  case (3 p q ps)
  have "isspace nl" by (simp add: isspace_def nl_def)
  with "3.prems"(2) have lp: "p = [] \<or> last p \<noteq> nl"
    by (auto simp: clean_def stripped_def)
  have "no_blank p" using "3.prems"(2) by simp
  from this lp have "split_acc cur (p @ blank_line @ join_blank (q # ps))
                     = (cur @ p) # split_acc [] (join_blank (q # ps))"
    by (rule split_acc_separator)
  moreover have "split_acc [] (join_blank (q # ps)) = q # ps"
    using "3.IH" [of "[]"] "3.prems"(2) by simp
  ultimately show ?case by simp
qed

lemma split_blank_join:
  assumes "ps \<noteq> []" "\<forall>p \<in> set ps. no_blank p \<and> clean p"
  shows "split_blank (join_blank ps) = ps"
  using split_join [OF assms, of "[]"] assms(1) by (simp add: split_blank_def)

lemma resplit_groups:
  assumes "[] \<notin> set groups" "\<forall>p \<in> set (concat groups). no_blank p \<and> clean p"
  shows "concat (map split_blank (map join_blank groups)) = concat groups"
  using assms
proof (induction groups)
  case Nil
  show ?case by simp
next
  case (Cons g groups)
  then have "split_blank (join_blank g) = g"
    by (intro split_blank_join) auto
  with Cons show ?case by simp
qed

text \<open>
  C3. Paragraph round-trip. As stated the claim fails: a part is stripped when it is
  appended, so a paragraph that starts or ends with whitespace at a part boundary does not
  come back. Below, the second paragraph is \<open>" b"\<close> and the second part is \<open>"b"\<close>.
\<close>

theorem paragraph_round_trip_counterexample:
  "int (length ''a\<newline>\<newline> b'') > 3
   \<and> paragraphs_fit ''a\<newline>\<newline> b'' 3
   \<and> split_blank ''a\<newline>\<newline> b'' = [''a'', '' b'']
   \<and> split_parts ''a\<newline>\<newline> b'' 3 = [''a'', ''b'']
   \<and> join_blank (split_parts ''a\<newline>\<newline> b'' 3) \<noteq> ''a\<newline>\<newline> b''
   \<and> concat (map split_blank (split_parts ''a\<newline>\<newline> b'' 3)) \<noteq> split_blank ''a\<newline>\<newline> b''"
  by code_simp

text \<open>
  C3, amended. For a text longer than \<open>max_length\<close> whose blank-line-delimited paragraphs
  are each at most \<open>max_length\<close> long, not empty, and free of whitespace at both ends: the
  parts rejoined on blank lines are the text; splitting the parts again gives the original
  paragraphs in order; and every part is the join of a non-empty run of consecutive whole
  paragraphs, so no paragraph is split across two parts.
\<close>

theorem paragraph_round_trip:
  assumes "int (length text) > max_length"
    and "paragraphs_fit text max_length"
    and "paragraphs_clean text"
  shows "join_blank (split_parts text max_length) = text
         \<and> concat (map split_blank (split_parts text max_length)) = split_blank text
         \<and> (\<exists>groups. [] \<notin> set groups \<and> concat groups = split_blank text
                      \<and> split_parts text max_length = map join_blank groups)"
proof -
  from split_parts_groups [OF assms(3), of max_length]
  obtain groups where g: "[] \<notin> set groups" "concat groups = split_blank text"
      "split_parts text max_length = map join_blank groups"
    by blast
  then have "join_blank (split_parts text max_length) = join_blank (split_blank text)"
    by (simp add: join_blank_groups)
  moreover have "\<forall>p \<in> set (concat groups). no_blank p \<and> clean p"
    using g(2) assms(3) pieces_no_blank [of "text"]
    by (simp add: paragraphs_clean_def list_all_iff split_blank_def)
  with g(1) have "concat (map split_blank (map join_blank groups)) = concat groups"
    by (rule resplit_groups)
  ultimately show ?thesis
    using g by (auto simp: join_split_blank)
qed

theorem paragraph_round_trip_witness:
  "int (length ''ab\<newline>\<newline>cd\<newline>\<newline>ef'') > 6
   \<and> paragraphs_fit ''ab\<newline>\<newline>cd\<newline>\<newline>ef'' 6
   \<and> paragraphs_clean ''ab\<newline>\<newline>cd\<newline>\<newline>ef''
   \<and> split_parts ''ab\<newline>\<newline>cd\<newline>\<newline>ef'' 6 = [''ab\<newline>\<newline>cd'', ''ef'']
   \<and> join_blank [''ab\<newline>\<newline>cd'', ''ef''] = ''ab\<newline>\<newline>cd\<newline>\<newline>ef''
   \<and> concat (map split_blank [''ab\<newline>\<newline>cd'', ''ef''])
       = split_blank ''ab\<newline>\<newline>cd\<newline>\<newline>ef''"
proof -
  have len: "int (length ''ab\<newline>\<newline>cd\<newline>\<newline>ef'') > 6"
    by simp
  have fit: "paragraphs_fit ''ab\<newline>\<newline>cd\<newline>\<newline>ef'' 6"
    by code_simp
  have cl: "paragraphs_clean ''ab\<newline>\<newline>cd\<newline>\<newline>ef''"
    by code_simp
  have parts: "split_parts ''ab\<newline>\<newline>cd\<newline>\<newline>ef'' 6 = [''ab\<newline>\<newline>cd'', ''ef'']"
    by code_simp
  from paragraph_round_trip [OF len fit cl, unfolded parts] len fit cl parts show ?thesis
    by blast
qed

section \<open>Properties of the scheduler\<close>

lemma distinct_count_list: "distinct xs \<Longrightarrow> count_list xs x \<le> 1"
  by (induction xs) (auto simp: count_list_0_iff)

lemma single_flight_initial: "single_flight (initial queue)"
  by (simp add: single_flight_def initial_def)

lemma tasks_handle_message:
  "tasks (handle_message user_id message_text s)
     = (if user_id \<in> processing_users s then tasks s else tasks s @ [user_id])"
  by (simp add: handle_message_def Let_def)

lemma message_queue_handle_message:
  "message_queue (handle_message user_id message_text s)
     = add_message user_id message_text (message_queue s)"
  by (simp add: handle_message_def Let_def)

lemma single_flight_handle_message:
  "single_flight s \<Longrightarrow> single_flight (handle_message user_id message_text s)"
  by (auto simp: single_flight_def handle_message_def Let_def)

lemma single_flight_handle_document:
  "single_flight s \<Longrightarrow> single_flight (handle_document_schedule user_id s)"
  by (auto simp: single_flight_def handle_document_schedule_def)

lemma tasks_finally:
  "tasks (process_messages_finally user_id s)
     = (if count_documents user_id (message_queue s) > 0 then tasks s @ [user_id] else tasks s)"
  by (simp add: process_messages_finally_def Let_def)

lemma processing_users_finally:
  "processing_users (process_messages_finally user_id s)
     = (if count_documents user_id (message_queue s) > 0
        then insert user_id (processing_users s)
        else processing_users s - {user_id})"
  by (auto simp: process_messages_finally_def Let_def)

lemma message_queue_finally:
  "message_queue (process_messages_finally user_id s) = message_queue s"
  by (simp add: process_messages_finally_def Let_def)

lemma tasks_complete_pass:
  assumes "user_id \<in> set (tasks s)"
  shows "tasks (complete_pass user_id s)
     = (if count_documents user_id (message_queue s) > 0
        then remove1 user_id (tasks s) @ [user_id] else remove1 user_id (tasks s))"
  using assms by (simp add: complete_pass_def Let_def tasks_finally remove1_append)

lemma processing_users_complete_pass:
  "processing_users (complete_pass user_id s) = processing_users (process_messages_finally user_id s)"
  by (simp add: complete_pass_def Let_def)

lemma message_queue_complete_pass:
  "message_queue (complete_pass user_id s) = message_queue s"
  by (simp add: complete_pass_def Let_def message_queue_finally)

lemma single_flight_complete_pass:
  assumes "single_flight s" "user_id \<in> set (tasks s)"
  shows "single_flight (complete_pass user_id s)"
proof -
  from assms(1) have d: "distinct (tasks s)" and e: "set (tasks s) = processing_users s"
    by (simp_all add: single_flight_def)
  from d have r: "set (remove1 user_id (tasks s)) = set (tasks s) - {user_id}"
    by (rule set_remove1_eq)
  from d have dr: "distinct (remove1 user_id (tasks s))"
    by simp
  show ?thesis
    unfolding single_flight_def tasks_complete_pass [OF assms(2)]
      processing_users_complete_pass processing_users_finally
    using r dr e assms(2) by auto
qed

lemma single_flight_step:
  assumes "single_flight s" "step e s = Some s'"
  shows "single_flight s'"
proof (cases e)
  case (Message user_id message_text)
  with assms show ?thesis by (auto simp: single_flight_handle_message)
next
  case (Document user_id)
  with assms show ?thesis by (auto simp: single_flight_handle_document)
next
  case (Claim user_id)
  with assms show ?thesis by (auto simp: single_flight_def split: if_splits)
next
  case (Complete user_id outcome)
  with assms show ?thesis by (auto simp: single_flight_complete_pass split: if_splits)
qed

lemma single_flight_run:
  "single_flight s \<Longrightarrow> run es s = Some s' \<Longrightarrow> single_flight s'"
proof (induction es arbitrary: s)
  case Nil
  then show ?case by simp
next
  case (Cons e es)
  then show ?case
    by (auto split: option.splits dest: single_flight_step)
qed

text \<open>
  C1. Single-flight invariant: in every state reached from the start by any interleaving
  of inbound messages, document uploads, claims and pass completions, no user has more
  than one active pass, and a user has an active pass exactly when it is in
  \<open>processing_users\<close>. \<open>handle_message\<close> creates a task only when the user is absent from the
  set; the \<open>finally\<close> block creates one only together with putting the user back into it.
\<close>

theorem single_flight_invariant:
  assumes "run events (initial queue) = Some s"
  shows "count_list (tasks s) user_id \<le> 1
         \<and> (user_id \<in> set (tasks s)) = (user_id \<in> processing_users s)
         \<and> tasks (handle_message user_id message_text s)
             = (if user_id \<in> processing_users s then tasks s else tasks s @ [user_id])
         \<and> (tasks (process_messages_finally user_id s) \<noteq> tasks s \<longrightarrow>
               tasks (process_messages_finally user_id s) = tasks s @ [user_id]
               \<and> user_id \<in> processing_users (process_messages_finally user_id s))"
proof -
  have "single_flight s"
    using single_flight_initial assms by (rule single_flight_run)
  then have "distinct (tasks s)" and "set (tasks s) = processing_users s"
    by (simp_all add: single_flight_def)
  then have "count_list (tasks s) user_id \<le> 1"
    and "(user_id \<in> set (tasks s)) = (user_id \<in> processing_users s)"
    using distinct_count_list [of "tasks s" user_id] by simp_all
  moreover have "tasks (handle_message user_id message_text s)
             = (if user_id \<in> processing_users s then tasks s else tasks s @ [user_id])"
    by (rule tasks_handle_message)
  moreover have "tasks (process_messages_finally user_id s) \<noteq> tasks s \<longrightarrow>
               tasks (process_messages_finally user_id s) = tasks s @ [user_id]
               \<and> user_id \<in> processing_users (process_messages_finally user_id s)"
    by (simp add: tasks_finally processing_users_finally)
  ultimately show ?thesis
    by blast
qed

theorem single_flight_invariant_witness:
  "run [Message ''7'' ''A'', Message ''8'' ''X'', Message ''7'' ''B'', Claim ''7'',
        Message ''7'' ''C'', Complete ''7'' None] (initial [])
     = Some \<lparr>processing_users = {''7'', ''8''}, tasks = [''8'', ''7''],
             message_queue = [\<lparr>q_user_id = ''7'', q_text = ''A'', is_processed = True\<rparr>,
                              \<lparr>q_user_id = ''8'', q_text = ''X'', is_processed = False\<rparr>,
                              \<lparr>q_user_id = ''7'', q_text = ''B'', is_processed = True\<rparr>,
                              \<lparr>q_user_id = ''7'', q_text = ''C'', is_processed = False\<rparr>]\<rparr>
   \<and> count_list [''8'', ''7''] ''7'' \<le> 1
   \<and> (''7'' \<in> set [''8'', ''7'']) = (''7'' \<in> {''7'', ''8''})"
proof -
  have r: "run [Message ''7'' ''A'', Message ''8'' ''X'', Message ''7'' ''B'', Claim ''7'',
        Message ''7'' ''C'', Complete ''7'' None] (initial [])
     = Some \<lparr>processing_users = {''7'', ''8''}, tasks = [''8'', ''7''],
             message_queue = [\<lparr>q_user_id = ''7'', q_text = ''A'', is_processed = True\<rparr>,
                              \<lparr>q_user_id = ''8'', q_text = ''X'', is_processed = False\<rparr>,
                              \<lparr>q_user_id = ''7'', q_text = ''B'', is_processed = True\<rparr>,
                              \<lparr>q_user_id = ''7'', q_text = ''C'', is_processed = False\<rparr>]\<rparr>"
    by code_simp
  from single_flight_invariant [OF r, of "''7''" "''D''"] r show ?thesis
    by simp
qed

lemma count_documents_pos:
  "(count_documents user_id queue > 0)
     = (\<exists>m \<in> set queue. q_user_id m = user_id \<and> \<not> is_processed m)"
  by (auto simp: count_documents_def filter_empty_conv)

lemma backlog_covered_iff:
  "backlog_covered s
     = (\<forall>user_id. count_documents user_id (message_queue s) > 0 \<longrightarrow> user_id \<in> set (tasks s))"
  by (auto simp: backlog_covered_def list_all_iff count_documents_pos)

lemma backlog_step:
  assumes "single_flight s" "backlog_covered s" "step e s = Some s'"
  shows "backlog_covered s'"
proof (cases e)
  case (Message user_id message_text)
  with assms(3) have s': "s' = handle_message user_id message_text s"
    by simp
  from assms(1) have "set (tasks s) = processing_users s"
    by (simp add: single_flight_def)
  with assms(2) show ?thesis
    unfolding backlog_covered_def list_all_iff s' message_queue_handle_message
      tasks_handle_message
    by (auto simp: add_message_def)
next
  case (Document user_id)
  with assms(3) have s': "s' = handle_document_schedule user_id s"
    by simp
  have "message_queue s' = message_queue s" and "set (tasks s) \<subseteq> set (tasks s')"
    unfolding s' by (auto simp: handle_document_schedule_def)
  with assms(2) show ?thesis
    unfolding backlog_covered_def list_all_iff by auto
next
  case (Claim user_id)
  with assms show ?thesis
    by (auto simp: backlog_covered_def list_all_iff claim_messages_def split: if_splits)
next
  case (Complete user_id outcome)
  with assms have u: "user_id \<in> set (tasks s)" and s': "s' = complete_pass user_id s"
    by (auto split: if_splits)
  from assms(1) have d: "distinct (tasks s)"
    by (simp add: single_flight_def)
  then have r: "set (remove1 user_id (tasks s)) = set (tasks s) - {user_id}"
    by (rule set_remove1_eq)
  show ?thesis
    unfolding backlog_covered_iff s' message_queue_complete_pass tasks_complete_pass [OF u]
    using assms(2) r by (auto simp: backlog_covered_iff)
qed

lemma backlog_run:
  "single_flight s \<Longrightarrow> backlog_covered s \<Longrightarrow> run es s = Some s' \<Longrightarrow> backlog_covered s'"
proof (induction es arbitrary: s)
  case Nil
  then show ?case by simp
next
  case (Cons e es)
  from Cons.prems(3) obtain s1 where s1: "step e s = Some s1" "run es s1 = Some s'"
    by (auto split: option.splits)
  from Cons.prems(1) s1(1) have "single_flight s1"
    by (rule single_flight_step)
  moreover from Cons.prems(1,2) s1(1) have "backlog_covered s1"
    by (rule backlog_step)
  ultimately show ?case
    using s1(2) by (rule Cons.IH)
qed

text \<open>
  C2. Close-then-recheck completion: a pass that completes, whether its body returned or
  raised, first takes the user out of \<open>processing_users\<close> and then counts the user's
  unprocessed messages; when there are some, the user is put back and a new pass is
  created, and otherwise the user stays out. So after the completion a user with pending
  messages has exactly one active pass, and in no reachable state is there an unprocessed
  message whose user has no active pass (given none was left over in the queue at the
  start): a message that arrived after the claim is picked up by the next pass.
\<close>

theorem close_then_recheck:
  assumes "run events (initial queue) = Some s"
    and "list_all is_processed queue"
  shows "step (Complete user_id outcome) s = step (Complete user_id None) s
         \<and> processing_users (process_messages_finally user_id s)
             = (if count_documents user_id (message_queue s) > 0
                then insert user_id (processing_users s)
                else processing_users s - {user_id})
         \<and> tasks (process_messages_finally user_id s)
             = (if count_documents user_id (message_queue s) > 0
                then tasks s @ [user_id] else tasks s)
         \<and> (step (Complete user_id outcome) s = Some s'
              \<and> count_documents user_id (message_queue s) > 0 \<longrightarrow>
                user_id \<in> processing_users s' \<and> count_list (tasks s') user_id = 1)
         \<and> (count_documents user_id (message_queue s) > 0 \<longrightarrow> user_id \<in> set (tasks s))"
proof -
  have sf: "single_flight s"
    using single_flight_initial assms(1) by (rule single_flight_run)
  have "backlog_covered (initial queue)"
    using assms(2) by (simp add: backlog_covered_def initial_def list_all_iff)
  with single_flight_initial have bc: "backlog_covered s"
    using assms(1) by (rule backlog_run)
  have "user_id \<in> processing_users s' \<and> count_list (tasks s') user_id = 1"
    if st: "step (Complete user_id outcome) s = Some s'"
      and pending: "count_documents user_id (message_queue s) > 0"
  proof -
    from st have u: "user_id \<in> set (tasks s)" and s': "s' = complete_pass user_id s"
      by (auto split: if_splits)
    have "single_flight s'"
      using sf st by (rule single_flight_step)
    then have "count_list (tasks s') user_id \<le> 1"
      using distinct_count_list [of "tasks s'" user_id] by (simp add: single_flight_def)
    moreover have "user_id \<in> set (tasks s')"
      using pending by (simp add: s' tasks_complete_pass [OF u])
    then have "count_list (tasks s') user_id \<noteq> 0"
      by (simp only: count_list_0_iff not_not)
    moreover have "user_id \<in> processing_users s'"
      using pending by (simp add: s' processing_users_complete_pass processing_users_finally)
    ultimately show ?thesis by simp
  qed
  moreover have "count_documents user_id (message_queue s) > 0 \<longrightarrow> user_id \<in> set (tasks s)"
    using bc by (simp add: backlog_covered_iff)
  ultimately show ?thesis
    by (simp add: processing_users_finally tasks_finally)
qed

theorem close_then_recheck_witness:
  "list_all is_processed []
   \<and> run [Message ''7'' ''A'', Claim ''7'', Message ''7'' ''B''] (initial [])
       = Some \<lparr>processing_users = {''7''}, tasks = [''7''],
               message_queue = [\<lparr>q_user_id = ''7'', q_text = ''A'', is_processed = True\<rparr>,
                                \<lparr>q_user_id = ''7'', q_text = ''B'', is_processed = False\<rparr>]\<rparr>
   \<and> step (Complete ''7'' (Some (OtherException ''boom'')))
         \<lparr>processing_users = {''7''}, tasks = [''7''],
          message_queue = [\<lparr>q_user_id = ''7'', q_text = ''A'', is_processed = True\<rparr>,
                           \<lparr>q_user_id = ''7'', q_text = ''B'', is_processed = False\<rparr>]\<rparr>
       = Some \<lparr>processing_users = {''7''}, tasks = [''7''],
               message_queue = [\<lparr>q_user_id = ''7'', q_text = ''A'', is_processed = True\<rparr>,
                                \<lparr>q_user_id = ''7'', q_text = ''B'', is_processed = False\<rparr>]\<rparr>
   \<and> count_documents ''7'' [\<lparr>q_user_id = ''7'', q_text = ''A'', is_processed = True\<rparr>,
                             \<lparr>q_user_id = ''7'', q_text = ''B'', is_processed = False\<rparr>] > 0
   \<and> ''7'' \<in> {''7''} \<and> count_list [''7''] ''7'' = 1"
proof -
  have none: "list_all is_processed []"
    by simp
  have r: "run [Message ''7'' ''A'', Claim ''7'', Message ''7'' ''B''] (initial [])
       = Some \<lparr>processing_users = {''7''}, tasks = [''7''],
               message_queue = [\<lparr>q_user_id = ''7'', q_text = ''A'', is_processed = True\<rparr>,
                                \<lparr>q_user_id = ''7'', q_text = ''B'', is_processed = False\<rparr>]\<rparr>"
    by code_simp
  have c: "step (Complete ''7'' (Some (OtherException ''boom'')))
         \<lparr>processing_users = {''7''}, tasks = [''7''],
          message_queue = [\<lparr>q_user_id = ''7'', q_text = ''A'', is_processed = True\<rparr>,
                           \<lparr>q_user_id = ''7'', q_text = ''B'', is_processed = False\<rparr>]\<rparr>
       = Some \<lparr>processing_users = {''7''}, tasks = [''7''],
               message_queue = [\<lparr>q_user_id = ''7'', q_text = ''A'', is_processed = True\<rparr>,
                                \<lparr>q_user_id = ''7'', q_text = ''B'', is_processed = False\<rparr>]\<rparr>"
    by code_simp
  have p: "count_documents ''7'' [\<lparr>q_user_id = ''7'', q_text = ''A'', is_processed = True\<rparr>,
                             \<lparr>q_user_id = ''7'', q_text = ''B'', is_processed = False\<rparr>] > 0"
    by code_simp
  from close_then_recheck [OF r none, of "''7''" "Some (OtherException ''boom'')"
      "\<lparr>processing_users = {''7''}, tasks = [''7''],
               message_queue = [\<lparr>q_user_id = ''7'', q_text = ''A'', is_processed = True\<rparr>,
                                \<lparr>q_user_id = ''7'', q_text = ''B'', is_processed = False\<rparr>]\<rparr>"]
    r c p
  show ?thesis
    by simp
qed

end
